theory Spec2Isabelle
  imports Main "HOL-Library.AList"
begin

section \<open>Data model of sessions.go\<close>

text \<open>
  Go's \<open>interface{}\<close> values that the adapter stores and returns: \<open>INil\<close> is the nil
  interface (what indexing a Go map yields for a missing key); \<open>IBool\<close>, \<open>IInt\<close> and
  \<open>IStr\<close> are values of comparable basic types; \<open>INaN\<close> is a \<open>float64\<close> NaN, the one
  comparable value that is not equal to itself (the other floats behave as the integers
  do and are left out). Session keys are \<open>interface{}\<close> too; a key of a non-comparable
  dynamic type (a slice, a map) makes every Go map operation panic and is not
  representable here.
\<close>

datatype iface = INil | IBool bool | IInt int | IStr string | INaN

text \<open>A Go \<open>error\<close> is represented by its message; \<open>None\<close> is the nil error.\<close>

type_synonym error = string

text \<open>\<open>type Options struct\<close> (sessions.go, lines 43-52).\<close>

record Options =
  Path :: string
  Domain :: string
  MaxAge :: int
  Secure :: bool
  HttpOnly :: bool

text \<open>
  The store library's own options struct, the target of the field-by-field copy in
  \<open>session.Options\<close> (lines 149-155). It is declared outside this repository; the five
  fields are the ones the source assigns.
\<close>

record sessions_Options =
  sessions_Path :: string
  sessions_Domain :: string
  sessions_MaxAge :: int
  sessions_Secure :: bool
  sessions_HttpOnly :: bool

text \<open>
  Modelled from the spec: the store library's session type (\<open>*sessions.Session\<close>) is
  declared outside src/. The spec gives a named session "a mapping from key to arbitrary
  value, plus a separate ordered list used for one-shot flash messages, plus per-session
  cookie-like options", the list being "identified by optional key (default identifier
  "_flash" when omitted)". The source reaches the mapping as \<open>Values\<close> (lines 119, 123,
  128, 133) and the options as the pointer \<open>Options\<close> (line 149; \<open>None\<close> is nil);
  \<open>Flash g k\<close> is the flash list identified by \<open>k\<close>. \<open>Values\<close> is an association list
  whose order stands for the order in which a Go \<open>range\<close> visits the keys, which Go
  leaves unspecified.
\<close>

record gsession =
  Values :: "(iface \<times> iface) list"
  Flash :: "string \<Rightarrow> iface list"
  sOptions :: "sessions_Options option"

text \<open>
  \<open>type Store interface\<close> (lines 36-38): the two calls the adapter makes. \<open>store_Get\<close> is
  \<open>Get(r, name) (*sessions.Session, error)\<close>; either component may be nil. \<open>store_Save\<close>
  is what \<open>(*sessions.Session).Save(r, w)\<close> hands to the store; its effect on the
  response is recorded by the caller, its result is the error.
\<close>

record 'r Store =
  store_Get :: "'r \<Rightarrow> string \<Rightarrow> gsession option \<times> error option"
  store_Save :: "'r \<Rightarrow> gsession \<Rightarrow> error option"

text \<open>
  \<open>type session struct\<close> (lines 110-116). \<open>ss\<close> maps a name to a pointer, which may be
  nil; it is an association list because the pre-send hook ranges over it. The session
  objects are kept by value under their name: the store is taken to hand out a separate
  object for each name. \<open>logger\<close> is the list of lines printed so far.
\<close>

record 'r session =
  ss :: "(string \<times> gsession option) list"
  written :: "string \<rightharpoonup> bool"
  request :: 'r
  logger :: "string list"
  store :: "'r Store"

text \<open>A Go run-time panic. The only one the adapter can raise is a nil dereference.\<close>

datatype panic = NilDeref

text \<open>
  A call either returns a value or panics; the adapter state at that moment is kept in
  both cases, since a panic does not undo the assignments made before it.
\<close>

type_synonym ('a, 'r) outcome = "(panic + 'a) \<times> 'r session"

section \<open>The adapter\<close>

text \<open>\<open>errorFormat\<close> (line 32) applied to an error by \<open>Printf\<close>.\<close>

definition errorFormat :: "error \<Rightarrow> string" where
  "errorFormat e = ''[sessions] ERROR! '' @ e @ [CHR 0x0A]"

text \<open>\<open>func check\<close> (lines 172-176).\<close>

definition check :: "error option \<Rightarrow> string list \<Rightarrow> string list" where
  "check err l = (case err of None \<Rightarrow> l | Some e \<Rightarrow> l @ [errorFormat e])"

text \<open>\<open>func (s *session) Written\<close> (lines 168-170): a missing key reads as false.\<close>

definition Written :: "'r session \<Rightarrow> string \<Rightarrow> bool" where
  "Written s name = (case written s name of None \<Rightarrow> False | Some b \<Rightarrow> b)"

text \<open>
  \<open>func (s *session) Session\<close> (lines 158-166). A name that is missing from \<open>ss\<close> and a
  name that maps to nil both read as nil and are loaded from the store.
\<close>

definition Session :: "'r session \<Rightarrow> string \<Rightarrow> gsession option \<times> 'r session" where
  "Session s name =
     (case map_of (ss s) name of
        Some (Some g) \<Rightarrow> (Some g, s)
      | _ \<Rightarrow>
          (let (p, err) = store_Get (store s) (request s) name;
               s1 = s\<lparr>ss := AList.update name p (ss s)\<rparr>;
               s2 = s1\<lparr>logger := check err (logger s1)\<rparr>
           in (p, s2)))"

text \<open>A write through the pointer held under \<open>name\<close>.\<close>

definition store_through :: "'r session \<Rightarrow> string \<Rightarrow> gsession \<Rightarrow> 'r session" where
  "store_through s name g = s\<lparr>ss := AList.update name (Some g) (ss s)\<rparr>"

text \<open>
  Go's map operations on a \<open>map[interface{}]interface{}\<close>. An entry is found by a key
  that is equal to its key, and a NaN is equal to no key, itself included: an entry under
  a NaN is never read, overwritten or deleted, an assignment under a NaN adds an entry
  each time, and \<open>range\<close> visits every entry.

  \<open>map_lookup\<close> is the two-result read \<open>v, ok := m[key]\<close>.
\<close>

definition map_lookup :: "(iface \<times> iface) list \<Rightarrow> iface \<Rightarrow> iface option" where
  "map_lookup m key = (if key = INaN then None else map_of m key)"

text \<open>Indexing, \<open>m[key]\<close>: the zero value for a key that is not found.\<close>

definition index :: "(iface \<times> iface) list \<Rightarrow> iface \<Rightarrow> iface" where
  "index m key = (case map_lookup m key of None \<Rightarrow> INil | Some v \<Rightarrow> v)"

text \<open>Assignment, \<open>m[key] = val\<close>.\<close>

definition map_assign :: "iface \<Rightarrow> iface \<Rightarrow> (iface \<times> iface) list \<Rightarrow> (iface \<times> iface) list" where
  "map_assign key val m = (if key = INaN then m @ [(INaN, val)] else AList.update key val m)"

text \<open>\<open>delete(m, key)\<close>.\<close>

definition map_delete :: "iface \<Rightarrow> (iface \<times> iface) list \<Rightarrow> (iface \<times> iface) list" where
  "map_delete key m = (if key = INaN then m else AList.delete key m)"

text \<open>\<open>func (s *session) Get\<close> (lines 118-120).\<close>

definition Get :: "'r session \<Rightarrow> string \<Rightarrow> iface \<Rightarrow> (iface, 'r) outcome" where
  "Get s name key =
     (case Session s name of
        (None, s1) \<Rightarrow> (Inl NilDeref, s1)
      | (Some g, s1) \<Rightarrow> (Inr (index (Values g) key), s1))"

text \<open>\<open>func (s *session) Set\<close> (lines 122-125).\<close>

definition Set :: "'r session \<Rightarrow> string \<Rightarrow> iface \<Rightarrow> iface \<Rightarrow> (unit, 'r) outcome" where
  "Set s name key val =
     (case Session s name of
        (None, s1) \<Rightarrow> (Inl NilDeref, s1)
      | (Some g, s1) \<Rightarrow>
          (let s2 = store_through s1 name (g\<lparr>Values := map_assign key val (Values g)\<rparr>);
               s3 = s2\<lparr>written := (written s2)(name \<mapsto> True)\<rparr>
           in (Inr (), s3)))"

text \<open>\<open>func (s *session) Delete\<close> (lines 127-130).\<close>

definition Delete :: "'r session \<Rightarrow> string \<Rightarrow> iface \<Rightarrow> (unit, 'r) outcome" where
  "Delete s name key =
     (case Session s name of
        (None, s1) \<Rightarrow> (Inl NilDeref, s1)
      | (Some g, s1) \<Rightarrow>
          (let s2 = store_through s1 name (g\<lparr>Values := map_delete key (Values g)\<rparr>);
               s3 = s2\<lparr>written := (written s2)(name \<mapsto> True)\<rparr>
           in (Inr (), s3)))"

text \<open>
  \<open>func (s *session) Clear\<close> (lines 132-136): the loop body, run for the keys that the
  \<open>range\<close> still has to visit.
\<close>

fun Clear_loop :: "iface list \<Rightarrow> 'r session \<Rightarrow> string \<Rightarrow> (unit, 'r) outcome" where
  "Clear_loop [] s name = (Inr (), s)"
| "Clear_loop (key # keys) s name =
     (case Delete s name key of
        (Inl p, s1) \<Rightarrow> (Inl p, s1)
      | (Inr _, s1) \<Rightarrow> Clear_loop keys s1 name)"

definition Clear :: "'r session \<Rightarrow> string \<Rightarrow> (unit, 'r) outcome" where
  "Clear s name =
     (case Session s name of
        (None, s1) \<Rightarrow> (Inl NilDeref, s1)
      | (Some g, s1) \<Rightarrow> Clear_loop (map fst (Values g)) s1 name)"

text \<open>
  The flash key: "A single variadic argument is accepted, and it is optional: it
  defines the flash key. If not defined "_flash" is used by default" (lines 67-68).
\<close>

definition flashKey :: "string list \<Rightarrow> string" where
  "flashKey vars = (case vars of [] \<Rightarrow> ''_flash'' | k # _ \<Rightarrow> k)"

text \<open>
  Modelled from the spec: the store library's \<open>(*sessions.Session).AddFlash\<close> is not
  under src/. The spec: it "appends value to the flash list identified by optional key".
\<close>

definition sessions_AddFlash :: "gsession \<Rightarrow> iface \<Rightarrow> string list \<Rightarrow> gsession" where
  "sessions_AddFlash g val vars =
     g\<lparr>Flash := (Flash g)(flashKey vars := Flash g (flashKey vars) @ [val])\<rparr>"

text \<open>
  Modelled from the spec: the store library's \<open>(*sessions.Session).Flashes\<close> is not
  under src/. The spec: it "retrieves and clears the flash list for the given key".
\<close>

definition sessions_Flashes :: "gsession \<Rightarrow> string list \<Rightarrow> iface list \<times> gsession" where
  "sessions_Flashes g vars =
     (Flash g (flashKey vars), g\<lparr>Flash := (Flash g)(flashKey vars := [])\<rparr>)"

text \<open>\<open>func (s *session) AddFlash\<close> (lines 138-141).\<close>

definition AddFlash ::
  "'r session \<Rightarrow> string \<Rightarrow> iface \<Rightarrow> string list \<Rightarrow> (unit, 'r) outcome" where
  "AddFlash s name val vars =
     (case Session s name of
        (None, s1) \<Rightarrow> (Inl NilDeref, s1)
      | (Some g, s1) \<Rightarrow>
          (let s2 = store_through s1 name (sessions_AddFlash g val vars);
               s3 = s2\<lparr>written := (written s2)(name \<mapsto> True)\<rparr>
           in (Inr (), s3)))"

text \<open>\<open>func (s *session) Flashes\<close> (lines 143-146): the mark comes first.\<close>

definition Flashes :: "'r session \<Rightarrow> string \<Rightarrow> string list \<Rightarrow> (iface list, 'r) outcome" where
  "Flashes s name vars =
     (let s1 = s\<lparr>written := (written s)(name \<mapsto> True)\<rparr>
      in case Session s1 name of
           (None, s2) \<Rightarrow> (Inl NilDeref, s2)
         | (Some g, s2) \<Rightarrow>
             (let (fl, g') = sessions_Flashes g vars
              in (Inr fl, store_through s2 name g')))"

text \<open>\<open>func (s *session) Options\<close> (lines 148-156).\<close>

definition Options :: "'r session \<Rightarrow> string \<Rightarrow> Options \<Rightarrow> (unit, 'r) outcome" where
  "Options s name options =
     (case Session s name of
        (None, s1) \<Rightarrow> (Inl NilDeref, s1)
      | (Some g, s1) \<Rightarrow>
          (Inr (), store_through s1 name
             (g\<lparr>sOptions := Some \<lparr>sessions_Path = Path options,
                                   sessions_Domain = Domain options,
                                   sessions_MaxAge = MaxAge options,
                                   sessions_Secure = Secure options,
                                   sessions_HttpOnly = HttpOnly options\<rparr>\<rparr>)))"

section \<open>The middleware\<close>

text \<open>
  The handlers that follow the middleware reach the adapter only through the methods of
  \<open>type Session interface\<close> (lines 57-76). One execution of them makes a finite sequence
  of such calls, each with the arguments it was given.
\<close>

datatype call =
    Call_Get string iface
  | Call_Set string iface iface
  | Call_Delete string iface
  | Call_Clear string
  | Call_AddFlash string iface "string list"
  | Call_Flashes string "string list"
  | Call_Options string Options

text \<open>The session name a call is made on.\<close>

fun call_name :: "call \<Rightarrow> string" where
  "call_name (Call_Get n k) = n"
| "call_name (Call_Set n k v) = n"
| "call_name (Call_Delete n k) = n"
| "call_name (Call_Clear n) = n"
| "call_name (Call_AddFlash n v vars) = n"
| "call_name (Call_Flashes n vars) = n"
| "call_name (Call_Options n opts) = n"

definition forget :: "('a, 'r) outcome \<Rightarrow> (unit, 'r) outcome" where
  "forget out = (case out of (Inl p, s) \<Rightarrow> (Inl p, s) | (Inr _, s) \<Rightarrow> (Inr (), s))"

fun do_call :: "'r session \<Rightarrow> call \<Rightarrow> (unit, 'r) outcome" where
  "do_call s (Call_Get n k) = forget (Get s n k)"
| "do_call s (Call_Set n k v) = Set s n k v"
| "do_call s (Call_Delete n k) = Delete s n k"
| "do_call s (Call_Clear n) = Clear s n"
| "do_call s (Call_AddFlash n v vars) = AddFlash s n v vars"
| "do_call s (Call_Flashes n vars) = forget (Flashes s n vars)"
| "do_call s (Call_Options n opts) = Options s n opts"

text \<open>The calls of a handler in sequence; a panic ends the sequence.\<close>

fun run :: "call list \<Rightarrow> 'r session \<Rightarrow> (unit, 'r) outcome" where
  "run [] s = (Inr (), s)"
| "run (c # cs) s =
     (case do_call s c of
        (Inl p, s1) \<Rightarrow> (Inl p, s1)
      | (Inr _, s1) \<Rightarrow> run cs s1)"

text \<open>
  The response, as far as the sessions are concerned: the persist calls made on it, each
  with the name the adapter holds the session under and the session as it was saved.
\<close>

type_synonym response = "(string \<times> gsession) list"

text \<open>
  The function given to \<open>rw.Before\<close> (lines 94-100): the loop body, run for the names
  that the \<open>range\<close> over \<open>s.ss\<close> still has to visit. \<open>Save\<close> on a nil pointer panics.
\<close>

fun Before_loop ::
  "string list \<Rightarrow> 'r session \<Rightarrow> response \<Rightarrow> (panic + unit) \<times> 'r session \<times> response" where
  "Before_loop [] s res = (Inr (), s, res)"
| "Before_loop (n # ns) s res =
     (if Written s n then
        (case Session s n of
           (None, s1) \<Rightarrow> (Inl NilDeref, s1, res)
         | (Some g, s1) \<Rightarrow>
             Before_loop ns
               (s1\<lparr>logger := check (store_Save (store s1) (request s1) g) (logger s1)\<rparr>)
               (res @ [(n, g)]))
      else Before_loop ns s res)"

definition Before :: "'r session \<Rightarrow> response \<Rightarrow> (panic + unit) \<times> 'r session \<times> response" where
  "Before s res = Before_loop (map fst (ss s)) s res"

text \<open>The adapter built at lines 83-89.\<close>

definition new_session :: "'r Store \<Rightarrow> 'r \<Rightarrow> string list \<Rightarrow> 'r session" where
  "new_session st r l =
     \<lparr>ss = [], written = Map.empty, request = r, logger = l, store = st\<rparr>"

text \<open>
  \<open>func Sessions\<close> (lines 80-108) for one request: the adapter is built, the handlers
  make their calls (\<open>c.Next()\<close>), and the hook runs when the response is about to be
  written, on the adapter as the calls left it.
\<close>

definition Sessions ::
  "'r Store \<Rightarrow> 'r \<Rightarrow> string list \<Rightarrow> call list \<Rightarrow> (panic + unit) \<times> 'r session \<times> response" where
  "Sessions st r l handler = Before (snd (run handler (new_session st r l))) []"

text \<open>The names the response was asked to persist, in the order of the calls.\<close>

definition persisted :: "(panic + unit) \<times> 'r session \<times> response \<Rightarrow> string list" where
  "persisted result = map fst (snd (snd result))"

section \<open>Notions used in the statements\<close>

text \<open>A name is loaded when \<open>s.ss[name]\<close> holds a session, so that \<open>Session\<close> does not go to the store.\<close>

definition loaded :: "'r session \<Rightarrow> string \<Rightarrow> bool" where
  "loaded s n = (case map_of (ss s) n of Some (Some g) \<Rightarrow> True | _ \<Rightarrow> False)"

text \<open>No entry of \<open>ss\<close> holds a nil pointer.\<close>

definition all_loaded :: "'r session \<Rightarrow> bool" where
  "all_loaded s = (None \<notin> snd ` set (ss s))"

text \<open>
  The \<open>Values\<close> of session \<open>n\<close> as the next call on \<open>n\<close> finds them: those of the session
  that \<open>Session\<close> yields, loaded already or fetched from the store.
\<close>

definition Values_of :: "'r session \<Rightarrow> string \<Rightarrow> (iface \<times> iface) list" where
  "Values_of s n = (case fst (Session s n) of None \<Rightarrow> [] | Some g \<Rightarrow> Values g)"

text \<open>
  The calls whose own body assigns \<open>s.written[name] = true\<close> (lines 124, 129, 140, 144).
\<close>

fun marking :: "call \<Rightarrow> bool" where
  "marking (Call_Set n k v) = True"
| "marking (Call_Delete n k) = True"
| "marking (Call_AddFlash n v vars) = True"
| "marking (Call_Flashes n vars) = True"
| "marking _ = False"

text \<open>
  The calls that the spec lists as mutating: Set, Delete, Clear, AddFlash and Flashes.
\<close>

fun mutating :: "call \<Rightarrow> bool" where
  "mutating (Call_Get n k) = False"
| "mutating (Call_Options n opts) = False"
| "mutating _ = True"

text \<open>
  The names that a sequence of calls references, each once, in the order of their first
  reference; names in \<open>seen\<close> are left out.
\<close>

fun first_refs :: "string list \<Rightarrow> call list \<Rightarrow> string list" where
  "first_refs seen [] = []"
| "first_refs seen (c # cs) =
     (if call_name c \<in> set seen then first_refs seen cs
      else call_name c # first_refs (call_name c # seen) cs)"

text \<open>What loading \<open>n\<close> from the store prints: one line if the load returns an error.\<close>

definition load_log :: "'r Store \<Rightarrow> 'r \<Rightarrow> string \<Rightarrow> string list" where
  "load_log st r n = check (snd (store_Get st r n)) []"

text \<open>What the persist calls recorded in a response print: one line for each failed save.\<close>

definition save_log :: "'r Store \<Rightarrow> 'r \<Rightarrow> response \<Rightarrow> string list" where
  "save_log st r res = concat (map (\<lambda>(n, g). check (store_Save st r g) []) res)"

section \<open>Stores used in the examples\<close>

text \<open>A session with no values, no flash messages and no options.\<close>

definition fresh_session :: gsession where
  "fresh_session = \<lparr>Values = [], Flash = (\<lambda>k. []), sOptions = None\<rparr>"

text \<open>A store that loads a fresh session for every name and never fails.\<close>

definition cookie_store :: "unit Store" where
  "cookie_store =
     \<lparr>store_Get = (\<lambda>r name. (Some fresh_session, None)), store_Save = (\<lambda>r g. None)\<rparr>"

text \<open>A store whose load fails the way Go functions usually do: a nil result and an error.\<close>

definition nil_store :: "unit Store" where
  "nil_store =
     \<lparr>store_Get = (\<lambda>r name. (None, Some ''backend unreachable'')),
      store_Save = (\<lambda>r g. None)\<rparr>"

text \<open>A store whose load fails but still hands out a fresh session with the error.\<close>

definition stale_store :: "unit Store" where
  "stale_store =
     \<lparr>store_Get = (\<lambda>r name. (Some fresh_session, Some ''the value is not valid'')),
      store_Save = (\<lambda>r g. None)\<rparr>"

text \<open>
  A store that loads, for every name, a session with one value and one pending flash
  message, as left by an earlier request.
\<close>

definition returning_store :: "unit Store" where
  "returning_store =
     \<lparr>store_Get = (\<lambda>r name.
        (Some (fresh_session\<lparr>Values := [(IStr ''user'', IInt 7)],
                           Flash := (\<lambda>k. if k = ''_flash'' then [IStr ''saved''] else [])\<rparr>),
         None)),
      store_Save = (\<lambda>r g. None)\<rparr>"

section \<open>Supporting lemmas\<close>

subsection \<open>The lazy loader\<close>

lemma Session_written [simp]: "written (snd (Session s n)) = written s"
  by (auto simp: Session_def Let_def split: option.splits prod.splits)

lemma Session_store [simp]: "store (snd (Session s n)) = store s"
  by (auto simp: Session_def Let_def split: option.splits prod.splits)

lemma Session_request [simp]: "request (snd (Session s n)) = request s"
  by (auto simp: Session_def Let_def split: option.splits prod.splits)

lemma Session_names: "fst ` set (ss (snd (Session s n))) = insert n (fst ` set (ss s))"
  by (auto simp: Session_def Let_def AList.dom_update split: option.splits prod.splits
      dest: map_of_SomeD intro: rev_image_eqI)

lemma Session_Some:
  "Session s n = (Some g, s1) \<Longrightarrow> map_of (ss s1) n = Some (Some g)"
  by (auto simp: Session_def Let_def AList.update_conv' split: option.splits prod.splits)

lemma Session_again:
  "map_of (ss s) n = Some (Some g) \<Longrightarrow> Session s n = (Some g, s)"
  by (simp add: Session_def)

lemma Session_other:
  "m \<noteq> n \<Longrightarrow> map_of (ss (snd (Session s n))) m = map_of (ss s) m"
  by (auto simp: Session_def Let_def AList.update_conv' split: option.splits prod.splits)

lemma Session_logger:
  "logger (snd (Session s n)) =
     (if loaded s n then logger s
      else check (snd (store_Get (store s) (request s) n)) (logger s))"
  by (auto simp: Session_def loaded_def Let_def split: option.splits prod.splits)

subsection \<open>The loop of Clear\<close>

lemma filter_NaN_delete:
  "k \<noteq> INaN \<Longrightarrow>
   filter (\<lambda>p. fst p = INaN) (AList.delete k al) = filter (\<lambda>p. fst p = INaN) al"
  by (induction al) auto

lemma fold_delete_all:
  "fst ` set al \<subseteq> insert INaN (set ks) \<Longrightarrow>
   fold map_delete ks al = filter (\<lambda>p. fst p = INaN) al"
proof (induction ks arbitrary: al)
  case Nil
  then have "\<forall>p\<in>set al. fst p = INaN" by auto
  then show ?case by simp
next
  case (Cons k ks)
  show ?case
  proof (cases "k = INaN")
    case True
    then show ?thesis using Cons.IH [of al] Cons.prems by (simp add: map_delete_def)
  next
    case False
    have "fst ` set (AList.delete k al) \<subseteq> insert INaN (set ks)"
      using Cons.prems by (auto simp: AList.delete_eq)
    then show ?thesis
      using Cons.IH [of "AList.delete k al"] False
      by (simp add: map_delete_def filter_NaN_delete)
  qed
qed

lemma Delete_loaded:
  "map_of (ss s) n = Some (Some g) \<Longrightarrow>
   Delete s n k =
     (Inr (), (store_through s n (g\<lparr>Values := map_delete k (Values g)\<rparr>))
                \<lparr>written := (written s)(n \<mapsto> True)\<rparr>)"
  by (simp add: Delete_def Session_again store_through_def)

lemma Clear_loop_loaded:
  "map_of (ss s) n = Some (Some g) \<Longrightarrow>
   Clear_loop ks s n =
     (Inr (), if ks = [] then s
              else (store_through s n (g\<lparr>Values := fold map_delete ks (Values g)\<rparr>))
                     \<lparr>written := (written s)(n \<mapsto> True)\<rparr>)"
proof (induction ks arbitrary: s g)
  case Nil
  then show ?case by simp
next
  case (Cons k ks)
  let ?g1 = "g\<lparr>Values := map_delete k (Values g)\<rparr>"
  let ?s1 = "(store_through s n ?g1)\<lparr>written := (written s)(n \<mapsto> True)\<rparr>"
  have d: "Delete s n k = (Inr (), ?s1)"
    using Cons.prems by (rule Delete_loaded)
  have l: "map_of (ss ?s1) n = Some (Some ?g1)"
    by (simp add: store_through_def AList.update_conv')
  show ?case
    using Cons.IH [OF l] d
    by (simp add: store_through_def)
qed

lemma Clear_Some:
  assumes "Session s n = (Some g, s1)"
  shows "Clear s n =
     (Inr (), if Values g = [] then s1
              else (store_through s1 n (g\<lparr>Values := filter (\<lambda>p. fst p = INaN) (Values g)\<rparr>))
                     \<lparr>written := (written s1)(n \<mapsto> True)\<rparr>)"
proof -
  have l: "map_of (ss s1) n = Some (Some g)"
    using assms by (rule Session_Some)
  have f: "fold map_delete (map fst (Values g)) (Values g) =
      filter (\<lambda>p. fst p = INaN) (Values g)"
    by (rule fold_delete_all) auto
  show ?thesis
    using assms Clear_loop_loaded [OF l, of "map fst (Values g)"] f
    by (simp add: Clear_def)
qed

lemma Clear_None:
  "Session s n = (None, s1) \<Longrightarrow> Clear s n = (Inl NilDeref, s1)"
  by (simp add: Clear_def)

subsection \<open>One call\<close>

lemmas op_defs = Get_def Set_def Delete_def AddFlash_def Flashes_def Options_def
  forget_def store_through_def sessions_Flashes_def Let_def

lemma Session_written_upd:
  "Session (s\<lparr>written := w\<rparr>) n = (fst (Session s n), (snd (Session s n))\<lparr>written := w\<rparr>)"
  by (auto simp: Session_def Let_def split: option.splits prod.splits)

lemma Clear_eq:
  "Clear s n =
     (case Session s n of
        (None, s1) \<Rightarrow> (Inl NilDeref, s1)
      | (Some g, s1) \<Rightarrow>
          (Inr (), if Values g = [] then s1
                   else (store_through s1 n (g\<lparr>Values := filter (\<lambda>p. fst p = INaN) (Values g)\<rparr>))
                          \<lparr>written := (written s1)(n \<mapsto> True)\<rparr>))"
  by (auto split: prod.splits option.splits simp: Clear_Some Clear_None)

lemma Written_upd [simp]:
  "Written (s\<lparr>logger := l\<rparr>) = Written s"
  "Written (s\<lparr>ss := x\<rparr>) = Written s"
  by (auto simp: Written_def fun_eq_iff)

lemma do_call_written_only_if:
  "Written (snd (do_call s c)) m \<Longrightarrow> Written s m \<or> (call_name c = m \<and> mutating c)"
  by (cases c; cases "Session s (call_name c)"; cases "fst (Session s (call_name c))")
     (auto simp: op_defs Clear_eq Written_def Session_written_upd
        dest: arg_cong [where f = "\<lambda>p. written (snd p)"] split: if_splits)

lemma do_call_written_iff:
  "fst (do_call s c) = Inr () \<Longrightarrow>
   Written (snd (do_call s c)) m \<longleftrightarrow>
     (Written s m \<or>
      (call_name c = m \<and> (marking c \<or> (c = Call_Clear m \<and> Values_of s m \<noteq> []))))"
  by (cases c; cases "Session s (call_name c)"; cases "fst (Session s (call_name c))")
     (auto simp: op_defs Clear_eq Written_def Session_written_upd Values_of_def
        dest: arg_cong [where f = "\<lambda>p. written (snd p)"] split: if_splits)

lemma do_call_store [simp]: "store (snd (do_call s c)) = store s"
  by (cases c; cases "Session s (call_name c)"; cases "fst (Session s (call_name c))")
     (auto simp: op_defs Clear_eq Session_written_upd
        dest: arg_cong [where f = "\<lambda>p. store (snd p)"] split: if_splits)

lemma do_call_request [simp]: "request (snd (do_call s c)) = request s"
  by (cases c; cases "Session s (call_name c)"; cases "fst (Session s (call_name c))")
     (auto simp: op_defs Clear_eq Session_written_upd
        dest: arg_cong [where f = "\<lambda>p. request (snd p)"] split: if_splits)

lemma do_call_logger:
  "logger (snd (do_call s c)) =
     (if loaded s (call_name c) then logger s
      else check (snd (store_Get (store s) (request s) (call_name c))) (logger s))"
  using Session_logger [of s "call_name c"]
  by (cases c; cases "Session s (call_name c)"; cases "fst (Session s (call_name c))")
     (auto simp: op_defs Clear_eq Session_written_upd split: if_splits)

lemma do_call_names:
  "fst ` set (ss (snd (do_call s c))) = insert (call_name c) (fst ` set (ss s))"
  using Session_names [of s "call_name c"] Session_Some [of s "call_name c"]
  by (cases c; cases "Session s (call_name c)"; cases "fst (Session s (call_name c))")
     (auto simp: op_defs Clear_eq Session_written_upd AList.dom_update split: if_splits
       dest!: map_of_SomeD)

lemma set_update_subset:
  "set (AList.update k v al) \<subseteq> insert (k, v) (set al)"
  by (induction al) auto

lemma update_Some_nonnil:
  "(a, None) \<in> set (AList.update k (Some g) al) \<Longrightarrow> (a, None) \<in> set al"
  using set_update_subset [of k "Some g" al] by auto

lemma Session_all_loaded:
  "all_loaded s \<Longrightarrow> Session s n = (Some g, s1) \<Longrightarrow> all_loaded s1"
  unfolding Session_def Let_def all_loaded_def
  by (auto split: option.splits prod.splits dest!: update_Some_nonnil intro: rev_image_eqI)

lemma do_call_None:
  "Session s (call_name c) = (None, s1) \<Longrightarrow>
   \<exists>w. do_call s c = (Inl NilDeref, s1\<lparr>written := w\<rparr>)"
  by (cases c) (auto simp: op_defs Clear_eq Session_written_upd intro: exI [of _ "written s1"])

lemma do_call_Some:
  assumes "Session s (call_name c) = (Some g, s1)"
  shows "\<exists>g' w. do_call s c =
     (Inr (), s1\<lparr>ss := AList.update (call_name c) (Some g') (ss s1), written := w\<rparr>)"
proof -
  have l: "map_of (ss s1) (call_name c) = Some (Some g)"
    using assms by (rule Session_Some)
  have t: "s1\<lparr>ss := AList.update (call_name c) (Some g) (ss s1), written := written s1\<rparr> = s1"
    using l by (simp add: AList.update_triv)
  show ?thesis
  proof (cases c)
    case (Call_Get n k)
    have "do_call s c = (Inr (), s1)"
      using assms Call_Get by (simp add: Get_def forget_def)
    then show ?thesis using t by metis
  next
    case (Call_Clear n)
    show ?thesis
    proof (cases "Values g = []")
      case True
      have "do_call s c = (Inr (), s1)"
        using assms Call_Clear True by (simp add: Clear_eq)
      then show ?thesis using t by metis
    next
      case False
      then show ?thesis
        using assms Call_Clear by (simp add: Clear_eq store_through_def) blast
    qed
  next
    case (Call_Set n k v)
    then show ?thesis using assms by (simp add: Set_def Let_def store_through_def) blast
  next
    case (Call_Delete n k)
    then show ?thesis using assms by (simp add: Delete_def Let_def store_through_def) blast
  next
    case (Call_AddFlash n v vars)
    then show ?thesis using assms by (simp add: AddFlash_def Let_def store_through_def) blast
  next
    case (Call_Flashes n vars)
    have "do_call s c =
        (Inr (), s1\<lparr>ss := AList.update n (Some (snd (sessions_Flashes g vars))) (ss s1),
                     written := (written s)(n \<mapsto> True)\<rparr>)"
      using assms Call_Flashes
      by (simp add: Flashes_def Let_def store_through_def Session_written_upd forget_def
            sessions_Flashes_def)
    then show ?thesis using Call_Flashes by auto
  next
    case (Call_Options n opts)
    then show ?thesis using assms
      by (simp add: Options_def store_through_def)
         (rule exI, rule exI [of _ "written s1"], simp)
  qed
qed

lemma do_call_all_loaded:
  assumes "all_loaded s" "fst (do_call s c) = Inr ()"
  shows "all_loaded (snd (do_call s c))"
proof (cases "Session s (call_name c)")
  case (Pair p s1)
  show ?thesis
  proof (cases p)
    case None
    then show ?thesis using Pair assms(2) do_call_None [of s c s1] by auto
  next
    case (Some g)
    have "all_loaded s1"
      using assms(1) Pair Some Session_all_loaded by blast
    then show ?thesis
      using Pair Some do_call_Some [of s c g s1]
      by (auto simp: all_loaded_def dest!: update_Some_nonnil intro: rev_image_eqI)
  qed
qed

lemma Session_distinct:
  "distinct (map fst (ss s)) \<Longrightarrow> distinct (map fst (ss (snd (Session s n))))"
  by (auto simp: Session_def Let_def AList.distinct_update split: option.splits prod.splits)

lemma do_call_distinct:
  assumes "distinct (map fst (ss s))"
  shows "distinct (map fst (ss (snd (do_call s c))))"
proof (cases "Session s (call_name c)")
  case (Pair p s1)
  have d: "distinct (map fst (ss s1))"
    using Session_distinct [OF assms, of "call_name c"] Pair by simp
  show ?thesis
  proof (cases p)
    case None
    then show ?thesis using Pair d do_call_None [of s c s1] by auto
  next
    case (Some g)
    then show ?thesis
      using Pair d do_call_Some [of s c g s1] by (auto simp: AList.distinct_update)
  qed
qed

lemma do_call_loaded:
  assumes "fst (do_call s c) = Inr ()"
  shows "loaded (snd (do_call s c)) m \<longleftrightarrow> (loaded s m \<or> m = call_name c)"
proof (cases "Session s (call_name c)")
  case (Pair p s1)
  show ?thesis
  proof (cases p)
    case None
    then show ?thesis using Pair assms do_call_None [of s c s1] by auto
  next
    case (Some g)
    have o: "m \<noteq> call_name c \<Longrightarrow> map_of (ss s1) m = map_of (ss s) m"
      using Session_other [of m "call_name c" s] Pair by simp
    show ?thesis
      using Pair Some do_call_Some [of s c g s1] o
      by (auto simp: loaded_def AList.update_conv')
  qed
qed

subsection \<open>A sequence of calls\<close>

lemma run_store [simp]: "store (snd (run cs s)) = store s"
proof (induction cs arbitrary: s)
  case Nil
  then show ?case by simp
next
  case (Cons c cs)
  obtain out s1 where d: "do_call s c = (out, s1)" by (cases "do_call s c")
  have "store s1 = store s" using do_call_store [of s c] d by simp
  then show ?case using Cons.IH [of s1] d by (cases out) simp_all
qed

lemma run_request [simp]: "request (snd (run cs s)) = request s"
proof (induction cs arbitrary: s)
  case Nil
  then show ?case by simp
next
  case (Cons c cs)
  obtain out s1 where d: "do_call s c = (out, s1)" by (cases "do_call s c")
  have "request s1 = request s" using do_call_request [of s c] d by simp
  then show ?case using Cons.IH [of s1] d by (cases out) simp_all
qed

lemma run_written_only_if:
  "Written (snd (run cs s)) m \<Longrightarrow>
   Written s m \<or> (\<exists>c\<in>set cs. call_name c = m \<and> mutating c)"
proof (induction cs arbitrary: s)
  case Nil
  then show ?case by simp
next
  case (Cons c cs)
  obtain out s1 where d: "do_call s c = (out, s1)" by (cases "do_call s c")
  have w: "Written s1 m \<Longrightarrow> Written s m \<or> (call_name c = m \<and> mutating c)"
    using do_call_written_only_if [of s c m] d by simp
  show ?case
  proof (cases out)
    case (Inl p)
    then show ?thesis using Cons.prems d w by auto
  next
    case (Inr u)
    then have "Written (snd (run cs s1)) m" using Cons.prems d by simp
    then show ?thesis using Cons.IH [of s1] w by auto
  qed
qed

lemma run_names:
  "fst ` set (ss (snd (run cs s))) \<subseteq> fst ` set (ss s) \<union> call_name ` set cs"
proof (induction cs arbitrary: s)
  case Nil
  then show ?case by simp
next
  case (Cons c cs)
  obtain out s1 where d: "do_call s c = (out, s1)" by (cases "do_call s c")
  have n: "fst ` set (ss s1) = insert (call_name c) (fst ` set (ss s))"
    using do_call_names [of s c] d by simp
  show ?case
  proof (cases out)
    case (Inl p)
    then show ?thesis using d n by auto
  next
    case (Inr u)
    then show ?thesis using Cons.IH [of s1] d n by auto
  qed
qed

lemma run_all_loaded:
  "all_loaded s \<Longrightarrow> fst (run cs s) = Inr () \<Longrightarrow> all_loaded (snd (run cs s))"
proof (induction cs arbitrary: s)
  case Nil
  then show ?case by simp
next
  case (Cons c cs)
  obtain out s1 where d: "do_call s c = (out, s1)" by (cases "do_call s c")
  show ?case
  proof (cases out)
    case (Inl p)
    then show ?thesis using Cons.prems d by simp
  next
    case (Inr u)
    then have "all_loaded s1"
      using do_call_all_loaded [of s c] Cons.prems(1) d by simp
    then show ?thesis using Cons.IH [of s1] Cons.prems(2) d Inr by simp
  qed
qed

lemma run_distinct:
  "distinct (map fst (ss s)) \<Longrightarrow> distinct (map fst (ss (snd (run cs s))))"
proof (induction cs arbitrary: s)
  case Nil
  then show ?case by simp
next
  case (Cons c cs)
  obtain out s1 where d: "do_call s c = (out, s1)" by (cases "do_call s c")
  have "distinct (map fst (ss s1))"
    using do_call_distinct [OF Cons.prems, of c] d by simp
  then show ?case using Cons.IH [of s1] d by (cases out) simp_all
qed

lemma check_append: "check err l = l @ check err []"
  by (simp add: check_def split: option.splits)

lemma run_logger:
  "fst (run cs s) = Inr () \<Longrightarrow> (\<forall>n. n \<in> set seen \<longleftrightarrow> loaded s n) \<Longrightarrow>
   logger (snd (run cs s)) =
     logger s @ concat (map (load_log (store s) (request s)) (first_refs seen cs))"
proof (induction cs arbitrary: s seen)
  case Nil
  then show ?case by simp
next
  case (Cons c cs)
  obtain out s1 where d: "do_call s c = (out, s1)" by (cases "do_call s c")
  show ?case
  proof (cases out)
    case (Inl p)
    then show ?thesis using Cons.prems d by simp
  next
    case (Inr u)
    have ok: "fst (do_call s c) = Inr ()" using d Inr by simp
    have r: "fst (run cs s1) = Inr ()" using Cons.prems(1) d Inr by simp
    have sr: "store s1 = store s" "request s1 = request s"
      using do_call_store [of s c] do_call_request [of s c] d by simp_all
    have lg: "logger s1 =
        (if loaded s (call_name c) then logger s
         else logger s @ load_log (store s) (request s) (call_name c))"
      using do_call_logger [of s c] d
        check_append [of "snd (store_Get (store s) (request s) (call_name c))" "logger s"]
      by (simp add: load_log_def)
    show ?thesis
    proof (cases "call_name c \<in> set seen")
      case True
      have "\<forall>n. n \<in> set seen \<longleftrightarrow> loaded s1 n"
        using do_call_loaded [OF ok] d Cons.prems(2) True by auto
      then show ?thesis
        using Cons.IH [OF r, of seen] lg True Cons.prems(2) d Inr sr by simp
    next
      case False
      have "\<forall>n. n \<in> set (call_name c # seen) \<longleftrightarrow> loaded s1 n"
        using do_call_loaded [OF ok] d Cons.prems(2) by auto
      then show ?thesis
        using Cons.IH [OF r, of "call_name c # seen"] lg False Cons.prems(2) d Inr sr
        by simp
    qed
  qed
qed

lemma loaded_new_session: "\<not> loaded (new_session st r l) n"
  by (simp add: loaded_def new_session_def)

subsection \<open>The pre-send hook\<close>

lemma Written_Session [simp]: "Written (snd (Session s n)) = Written s"
  by (simp add: Written_def fun_eq_iff)

lemma loaded_Session: "loaded s n \<Longrightarrow> \<exists>g. map_of (ss s) n = Some (Some g) \<and> Session s n = (Some g, s)"
  by (auto simp: loaded_def Session_def split: option.splits)

lemma loaded_logger [simp]: "loaded (s\<lparr>logger := l\<rparr>) = loaded s"
  by (simp add: loaded_def fun_eq_iff)

lemma Before_loop_subset:
  "fst ` set (snd (snd (Before_loop ns s res))) \<subseteq>
     fst ` set res \<union> {n \<in> set ns. Written s n}"
proof (induction ns arbitrary: s res)
  case Nil
  then show ?case by simp
next
  case (Cons n ns)
  show ?case
  proof (cases "Written s n")
    case False
    then show ?thesis using Cons.IH [of s res] by auto
  next
    case True
    obtain p s1 where se: "Session s n = (p, s1)" by (cases "Session s n")
    have w: "Written s1 = Written s" using Written_Session [of s n] se by simp
    show ?thesis
    proof (cases p)
      case None
      then show ?thesis using True se by simp
    next
      case (Some g)
      let ?s2 = "s1\<lparr>logger := check (store_Save (store s1) (request s1) g) (logger s1)\<rparr>"
      have "Before_loop (n # ns) s res = Before_loop ns ?s2 (res @ [(n, g)])"
        using True se Some by simp
      moreover have "fst ` set (snd (snd (Before_loop ns ?s2 (res @ [(n, g)])))) \<subseteq>
          fst ` set (res @ [(n, g)]) \<union> {m \<in> set ns. Written s m}"
        using Cons.IH [of ?s2 "res @ [(n, g)]"] w by simp
      ultimately show ?thesis using True by auto
    qed
  qed
qed

lemma save_log_Cons:
  "save_log st r ((n, g) # res) = check (store_Save st r g) [] @ save_log st r res"
  by (simp add: save_log_def)

lemma Before_loop_ok:
  "\<forall>n\<in>set ns. loaded s n \<Longrightarrow>
   \<exists>res'. Before_loop ns s res =
            (Inr (), s\<lparr>logger := logger s @ save_log (store s) (request s) res'\<rparr>, res @ res')
        \<and> map fst res' = filter (Written s) ns"
proof (induction ns arbitrary: s res)
  case Nil
  have "Before_loop [] s res =
      (Inr (), s\<lparr>logger := logger s @ save_log (store s) (request s) []\<rparr>, res @ [])"
    by (simp add: save_log_def)
  then show ?case by (intro exI [of _ "[]"]) simp
next
  case (Cons n ns)
  have rest: "\<forall>m\<in>set ns. loaded s m" using Cons.prems by simp
  show ?case
  proof (cases "Written s n")
    case False
    then show ?thesis using Cons.IH [OF rest, of res] by simp
  next
    case True
    obtain g where se: "Session s n = (Some g, s)"
      using loaded_Session [of s n] Cons.prems by auto
    let ?s2 = "s\<lparr>logger := check (store_Save (store s) (request s) g) (logger s)\<rparr>"
    have step: "Before_loop (n # ns) s res = Before_loop ns ?s2 (res @ [(n, g)])"
      using True se by simp
    have "\<forall>m\<in>set ns. loaded ?s2 m" using rest by simp
    from Cons.IH [OF this, of "res @ [(n, g)]"]
    obtain res' where r:
      "Before_loop ns ?s2 (res @ [(n, g)]) =
         (Inr (), ?s2\<lparr>logger := logger ?s2 @ save_log (store ?s2) (request ?s2) res'\<rparr>,
          (res @ [(n, g)]) @ res')"
      "map fst res' = filter (Written ?s2) ns"
      by blast
    have lg: "check (store_Save (store s) (request s) g) (logger s) =
        logger s @ check (store_Save (store s) (request s) g) []"
      by (rule check_append)
    have "Before_loop (n # ns) s res =
        (Inr (), s\<lparr>logger := logger s @ save_log (store s) (request s) ((n, g) # res')\<rparr>,
         res @ ((n, g) # res'))"
      using step r(1) lg by (simp add: save_log_Cons)
    moreover have "map fst ((n, g) # res') = filter (Written s) (n # ns)"
      using r(2) True by simp
    ultimately show ?thesis by blast
  qed
qed

lemma all_loaded_loaded:
  assumes "all_loaded s" "n \<in> fst ` set (ss s)"
  shows "loaded s n"
proof -
  obtain v where v: "map_of (ss s) n = Some v"
    using assms(2) by (metis weak_map_of_SomeI imageE prod.collapse)
  then have "(n, v) \<in> set (ss s)" by (rule map_of_SomeD)
  then have "v \<noteq> None" using assms(1) by (force simp: all_loaded_def)
  then show ?thesis using v by (auto simp: loaded_def)
qed

subsection \<open>Evaluation of the examples\<close>

lemmas eval_defs = new_session_def Session_def Get_def Set_def Delete_def Clear_def
  AddFlash_def Flashes_def Options_def forget_def store_through_def sessions_Flashes_def
  sessions_AddFlash_def flashKey_def Let_def check_def index_def map_lookup_def map_assign_def map_delete_def Written_def
  fresh_session_def cookie_store_def nil_store_def stale_store_def returning_store_def
  Before_def Sessions_def persisted_def errorFormat_def

lemma Written_new_session: "\<not> Written (new_session st r l) n"
  by (simp add: Written_def new_session_def)

lemma all_loaded_new_session: "all_loaded (new_session st r l)"
  by (simp add: all_loaded_def new_session_def)

lemma persisted_subset:
  "set (persisted (Before s [])) \<subseteq> {n \<in> fst ` set (ss s). Written s n}"
  using Before_loop_subset [of "map fst (ss s)" s "[]"]
  by (auto simp: persisted_def Before_def)

lemma Before_ok:
  assumes "all_loaded s"
  shows "\<exists>res. Before s [] =
            (Inr (), s\<lparr>logger := logger s @ save_log (store s) (request s) res\<rparr>, res)
        \<and> map fst res = filter (Written s) (map fst (ss s))"
proof -
  have "\<forall>n\<in>set (map fst (ss s)). loaded s n"
    using assms all_loaded_loaded by fastforce
  from Before_loop_ok [OF this, of "[]"] show ?thesis
    by (simp add: Before_def)
qed

lemma run_Gets_not_written:
  assumes "\<forall>c\<in>set handler. \<not> mutating c"
  shows "\<not> Written (snd (run handler (new_session st r l))) n"
  using run_written_only_if [of handler "new_session st r l" n]
    Written_new_session [of st r l n] assms
  by blast

lemma run_written_iff:
  "fst (run cs s) = Inr () \<Longrightarrow>
   Written (snd (run cs s)) n \<longleftrightarrow>
     (Written s n
      \<or> (\<exists>c\<in>set cs. call_name c = n \<and> marking c)
      \<or> (\<exists>cs1 cs2. cs = cs1 @ Call_Clear n # cs2 \<and> Values_of (snd (run cs1 s)) n \<noteq> []))"
proof (induction cs arbitrary: s)
  case Nil
  then show ?case by simp
next
  case (Cons c cs)
  obtain out s1 where d: "do_call s c = (out, s1)" by (cases "do_call s c")
  then have out: "out = Inr ()" using Cons.prems by (cases out) simp_all
  have ok: "fst (do_call s c) = Inr ()" using d out by simp
  have r: "run (c # cs) s = run cs s1" using d out by simp
  have r1: "fst (run cs s1) = Inr ()" using Cons.prems r by simp
  have step: "Written s1 n \<longleftrightarrow>
      (Written s n \<or>
       (call_name c = n \<and> (marking c \<or> (c = Call_Clear n \<and> Values_of s n \<noteq> []))))"
    using do_call_written_iff [OF ok, of n] d by simp
  have pre: "run (c # cs1) s = run cs1 s1" for cs1 using d out by simp
  have clr: "(\<exists>cs1 cs2. c # cs = cs1 @ Call_Clear n # cs2
                \<and> Values_of (snd (run cs1 s)) n \<noteq> []) \<longleftrightarrow>
      ((c = Call_Clear n \<and> Values_of s n \<noteq> [])
       \<or> (\<exists>cs1 cs2. cs = cs1 @ Call_Clear n # cs2 \<and> Values_of (snd (run cs1 s1)) n \<noteq> []))"
    (is "?L \<longleftrightarrow> ?A \<or> ?B")
  proof
    assume ?L
    then obtain cs1 cs2 where e: "c # cs = cs1 @ Call_Clear n # cs2"
      and v: "Values_of (snd (run cs1 s)) n \<noteq> []" by blast
    show "?A \<or> ?B"
    proof (cases cs1)
      case Nil
      then show ?thesis using e v by simp
    next
      case (Cons c' cs1')
      then have "cs = cs1' @ Call_Clear n # cs2" "c' = c" using e by simp_all
      moreover have "Values_of (snd (run cs1' s1)) n \<noteq> []"
        using v Cons \<open>c' = c\<close> pre [of cs1'] by simp
      ultimately show ?thesis by blast
    qed
  next
    assume "?A \<or> ?B"
    then show ?L
    proof
      assume ?A
      then have "c # cs = [] @ Call_Clear n # cs \<and> Values_of (snd (run [] s)) n \<noteq> []"
        by simp
      then show ?L by blast
    next
      assume ?B
      then obtain cs1 cs2 where e: "cs = cs1 @ Call_Clear n # cs2"
        and v: "Values_of (snd (run cs1 s1)) n \<noteq> []" by blast
      have "c # cs = (c # cs1) @ Call_Clear n # cs2
            \<and> Values_of (snd (run (c # cs1) s)) n \<noteq> []"
        using e v pre [of cs1] by simp
      then show ?L by blast
    qed
  qed
  have mk: "(\<exists>x\<in>set (c # cs). call_name x = n \<and> marking x) \<longleftrightarrow>
      ((call_name c = n \<and> marking c) \<or> (\<exists>x\<in>set cs. call_name x = n \<and> marking x))"
    by simp
  show ?case
    unfolding r Cons.IH [OF r1] step clr mk by auto
qed

lemma first_refs_set: "set (first_refs seen cs) = call_name ` set cs - set seen"
  by (induction cs arbitrary: seen) auto

lemma first_refs_distinct: "distinct (first_refs seen cs)"
  by (induction cs arbitrary: seen) (auto simp: first_refs_set)

section \<open>The claims\<close>

text \<open>
  Claim C1. When the calls of the handlers have all returned, the hook returns, and the
  names it asks the response to persist are the names in \<open>ss\<close> for which \<open>Written\<close> is
  true, each once (the names in \<open>ss\<close> are distinct). A request whose only call is a
  \<open>Get\<close> has no persist call at all.
\<close>

theorem hook_persists_written:
  "(fst (run handler (new_session st r l)) = Inr () \<longrightarrow>
      fst (Sessions st r l handler) = Inr ()
    \<and> persisted (Sessions st r l handler) =
        filter (Written (snd (run handler (new_session st r l))))
          (map fst (ss (snd (run handler (new_session st r l)))))
    \<and> distinct (map fst (ss (snd (run handler (new_session st r l))))))
   \<and> persisted (Sessions st r l [Call_Get n key]) = []"
proof -
  let ?s1 = "snd (run handler (new_session st r l))"
  have a: "fst (Sessions st r l handler) = Inr ()
    \<and> persisted (Sessions st r l handler) = filter (Written ?s1) (map fst (ss ?s1))
    \<and> distinct (map fst (ss ?s1))"
    if ok: "fst (run handler (new_session st r l)) = Inr ()"
  proof -
    have "all_loaded ?s1"
      using run_all_loaded [OF all_loaded_new_session ok] .
    from Before_ok [OF this] obtain res where
      "Before ?s1 [] =
         (Inr (), ?s1\<lparr>logger := logger ?s1 @ save_log (store ?s1) (request ?s1) res\<rparr>, res)"
      "map fst res = filter (Written ?s1) (map fst (ss ?s1))"
      by blast
    moreover have "distinct (map fst (ss ?s1))"
      by (rule run_distinct) (simp add: new_session_def)
    ultimately show ?thesis by (simp add: Sessions_def persisted_def)
  qed
  let ?s2 = "snd (run [Call_Get n key] (new_session st r l))"
  have "\<forall>c\<in>set [Call_Get n key]. \<not> mutating c" by simp
  then have "\<forall>m. \<not> Written ?s2 m"
    using run_Gets_not_written [of "[Call_Get n key]" st r l] by blast
  then have "set (persisted (Before ?s2 [])) = {}"
    using persisted_subset [of ?s2] by auto
  then have b: "persisted (Sessions st r l [Call_Get n key]) = []"
    by (simp add: Sessions_def)
  show ?thesis using a b by blast
qed

text \<open>
  Claim C1, an instance: a read of one session and a write to another persist the
  written one only.
\<close>

theorem hook_persists_written_witness:
  "fst (run [Call_Get ''prefs'' (IStr ''lang''), Call_Set ''app'' (IStr ''hello'') (IStr ''world'')]
        (new_session cookie_store () [])) = Inr ()
   \<and> persisted (Sessions cookie_store () []
        [Call_Get ''prefs'' (IStr ''lang''), Call_Set ''app'' (IStr ''hello'') (IStr ''world'')])
      = [''app'']"
proof -
  let ?h = "[Call_Get ''prefs'' (IStr ''lang''), Call_Set ''app'' (IStr ''hello'') (IStr ''world'')]"
  let ?s1 = "snd (run ?h (new_session cookie_store () []))"
  have ok: "fst (run ?h (new_session cookie_store () [])) = Inr ()"
    by (simp add: eval_defs)
  have f: "filter (Written ?s1) (map fst (ss ?s1)) = [''app'']"
    by (simp add: eval_defs)
  from hook_persists_written [of ?h cookie_store "()" "[]"] ok f
  show ?thesis by simp
qed




text \<open>
  Claim C3, amended. When the store's load returns a session together with its error,
  \<open>Get\<close> on a new adapter returns what that session holds under the key (nil for a
  session without values) and the error is printed. Over a request whose calls all
  return, the log is the initial log, then the load errors of the referenced names, one
  for each name and in the order of first reference, then the errors of the persist
  calls: no name is loaded twice, neither by a later call nor by the hook.
\<close>

theorem load_error_logged_once:
  "(store_Get st r n = (Some g, err) \<longrightarrow>
      fst (Get (new_session st r l) n key) = Inr (index (Values g) key)
    \<and> logger (snd (Get (new_session st r l) n key)) = check err l)
   \<and> (fst (run handler (new_session st r l)) = Inr () \<longrightarrow>
      logger (snd (run handler (new_session st r l))) =
        l @ concat (map (load_log st r) (first_refs [] handler))
    \<and> logger (fst (snd (Sessions st r l handler))) =
        l @ concat (map (load_log st r) (first_refs [] handler))
          @ save_log st r (snd (snd (Sessions st r l handler))))
   \<and> distinct (first_refs [] handler)
   \<and> set (first_refs [] handler) = call_name ` set handler"
proof -
  let ?s0 = "new_session st r l"
  let ?s1 = "snd (run handler ?s0)"
  have a: "fst (Get ?s0 n key) = Inr (index (Values g) key)
         \<and> logger (snd (Get ?s0 n key)) = check err l"
    if "store_Get st r n = (Some g, err)"
    using that by (simp add: Get_def Session_def new_session_def)
  have b: "logger ?s1 = l @ concat (map (load_log st r) (first_refs [] handler))
    \<and> logger (fst (snd (Sessions st r l handler))) =
        l @ concat (map (load_log st r) (first_refs [] handler))
          @ save_log st r (snd (snd (Sessions st r l handler)))"
    if ok: "fst (run handler ?s0) = Inr ()"
  proof -
    have seen: "\<forall>m. m \<in> set [] \<longleftrightarrow> loaded ?s0 m"
      by (simp add: loaded_new_session)
    have lg: "logger ?s1 = l @ concat (map (load_log st r) (first_refs [] handler))"
      using run_logger [OF ok seen] by (simp add: new_session_def)
    have "all_loaded ?s1"
      using run_all_loaded [OF all_loaded_new_session ok] .
    from Before_ok [OF this] obtain res where
      "Before ?s1 [] =
         (Inr (), ?s1\<lparr>logger := logger ?s1 @ save_log (store ?s1) (request ?s1) res\<rparr>, res)"
      by blast
    then have "logger (fst (snd (Sessions st r l handler))) =
        logger ?s1 @ save_log st r (snd (snd (Sessions st r l handler)))"
      by (simp add: Sessions_def new_session_def)
    then show ?thesis using lg by simp
  qed
  show ?thesis using a b first_refs_distinct [of "[]" handler] first_refs_set [of "[]" handler]
    by simp
qed

text \<open>
  Claim C3 as stated fails: when the store's load returns its error with a nil session,
  \<open>Get\<close> dereferences the nil pointer and panics.
\<close>

theorem load_error_counterexample:
  "store_Get nil_store () ''app'' = (None, Some ''backend unreachable'')
   \<and> fst (Get (new_session nil_store () []) ''app'' (IStr ''missing'')) = Inl NilDeref"
  by (simp add: eval_defs)

text \<open>
  Claim C3, amended, an instance: three calls on a session whose load failed print the
  error once, and the first \<open>Get\<close> returns nil.
\<close>

theorem load_error_logged_once_witness:
  "fst (Get (new_session stale_store () []) ''app'' (IStr ''missing'')) = Inr INil
   \<and> logger (snd (run [Call_Get ''app'' (IStr ''missing''), Call_Get ''app'' (IStr ''user''),
                        Call_Set ''app'' (IStr ''user'') (IInt 7)]
                   (new_session stale_store () [])))
      = [errorFormat ''the value is not valid'']"
proof -
  let ?h = "[Call_Get ''app'' (IStr ''missing''), Call_Get ''app'' (IStr ''user''),
             Call_Set ''app'' (IStr ''user'') (IInt 7)]"
  have g: "store_Get stale_store () ''app'' = (Some fresh_session, Some ''the value is not valid'')"
    by (simp add: stale_store_def)
  have ok: "fst (run ?h (new_session stale_store () [])) = Inr ()"
    by (simp add: eval_defs)
  have i: "index (Values fresh_session) (IStr ''missing'') = INil"
    by (simp add: index_def map_lookup_def fresh_session_def)
  have f: "concat (map (load_log stale_store ()) (first_refs [] ?h))
      = [errorFormat ''the value is not valid'']"
    by (simp add: load_log_def stale_store_def check_def)
  from load_error_logged_once [of stale_store "()" "''app''" fresh_session
      "Some ''the value is not valid''" "[]" "IStr ''missing''" ?h] g ok i f
  show ?thesis by simp
qed

text \<open>
  Claim C4. A name on which the handlers make no call is not among the names the hook
  asks the response to persist.
\<close>

theorem unreferenced_not_persisted:
  assumes "n \<notin> call_name ` set handler"
  shows "n \<notin> set (persisted (Sessions st r l handler))"
proof
  assume "n \<in> set (persisted (Sessions st r l handler))"
  then have "n \<in> fst ` set (ss (snd (run handler (new_session st r l))))"
    using persisted_subset [of "snd (run handler (new_session st r l))"]
    by (auto simp: Sessions_def)
  then have "n \<in> call_name ` set handler"
    using run_names [of handler "new_session st r l"] by (auto simp: new_session_def)
  then show False using assms by simp
qed

text \<open>
  Claim C4, an instance: after \<open>Set("app", "hello", "world")\<close> the hook persists
  \<open>"app"\<close> and not \<open>"other"\<close>.
\<close>

theorem unreferenced_not_persisted_witness:
  "persisted (Sessions cookie_store () [] [Call_Set ''app'' (IStr ''hello'') (IStr ''world'')])
     = [''app'']
   \<and> ''other'' \<notin> set (persisted (Sessions cookie_store () []
        [Call_Set ''app'' (IStr ''hello'') (IStr ''world'')]))"
proof -
  let ?h = "[Call_Set ''app'' (IStr ''hello'') (IStr ''world'')]"
  have n: "''other'' \<notin> call_name ` set ?h" by simp
  have p: "persisted (Sessions cookie_store () [] ?h) = [''app'']"
    by (simp add: eval_defs)
  from unreferenced_not_persisted [OF n] p show ?thesis by simp
qed

text \<open>
  Claim C5, amended. At any point of a request whose calls so far have returned,
  \<open>Written(n)\<close> is true if and only if a \<open>Set\<close>, \<open>Delete\<close>, \<open>AddFlash\<close> or \<open>Flashes\<close> was
  called on \<open>n\<close> before, or a \<open>Clear\<close> was called on \<open>n\<close> at a moment when session \<open>n\<close>
  held at least one key.
\<close>

theorem Written_iff_marked:
  assumes "fst (run cs (new_session st r l)) = Inr ()"
  shows "Written (snd (run cs (new_session st r l))) n \<longleftrightarrow>
     ((\<exists>c\<in>set cs. call_name c = n \<and> marking c)
      \<or> (\<exists>cs1 cs2. cs = cs1 @ Call_Clear n # cs2
            \<and> Values_of (snd (run cs1 (new_session st r l))) n \<noteq> []))"
  using run_written_iff [OF assms, of n] Written_new_session [of st r l n] by simp

text \<open>
  Claim C5 as stated fails: \<open>Clear\<close> on a session without keys is a call of a mutating
  operation that returns and leaves \<open>Written\<close> false, since it runs no \<open>Delete\<close>.
\<close>

theorem Written_iff_mutating_counterexample:
  "fst (run [Call_Clear ''app''] (new_session cookie_store () [])) = Inr ()
   \<and> call_name (Call_Clear ''app'') = ''app''
   \<and> mutating (Call_Clear ''app'')
   \<and> \<not> Written (snd (run [Call_Clear ''app''] (new_session cookie_store () []))) ''app''"
  by (simp add: eval_defs)

text \<open>
  Claim C5, amended, an instance: a \<open>Get\<close> leaves \<open>"app"\<close> unmarked, and a \<open>Clear\<close> of its
  one key marks it.
\<close>

theorem Written_iff_marked_witness:
  "fst (run [Call_Get ''app'' (IStr ''user''), Call_Clear ''app'']
         (new_session returning_store () [])) = Inr ()
   \<and> Written (snd (run [Call_Get ''app'' (IStr ''user''), Call_Clear ''app'']
         (new_session returning_store () []))) ''app''
   \<and> fst (run [Call_Get ''app'' (IStr ''user'')] (new_session returning_store () [])) = Inr ()
   \<and> \<not> Written (snd (run [Call_Get ''app'' (IStr ''user'')]
         (new_session returning_store () []))) ''app''"
proof -
  let ?s0 = "new_session returning_store () []"
  let ?cs = "[Call_Get ''app'' (IStr ''user''), Call_Clear ''app'']"
  have ok: "fst (run ?cs ?s0) = Inr ()" by (simp add: eval_defs)
  have ok1: "fst (run [Call_Get ''app'' (IStr ''user'')] ?s0) = Inr ()"
    by (simp add: eval_defs)
  have "?cs = [Call_Get ''app'' (IStr ''user'')] @ Call_Clear ''app'' # []
        \<and> Values_of (snd (run [Call_Get ''app'' (IStr ''user'')] ?s0)) ''app'' \<noteq> []"
    by (simp add: eval_defs Values_of_def)
  then have c: "\<exists>cs1 cs2. ?cs = cs1 @ Call_Clear ''app'' # cs2
        \<and> Values_of (snd (run cs1 ?s0)) ''app'' \<noteq> []"
    by blast
  have n: "\<not> ((\<exists>c\<in>set [Call_Get ''app'' (IStr ''user'')]. call_name c = ''app'' \<and> marking c)
      \<or> (\<exists>cs1 cs2. [Call_Get ''app'' (IStr ''user'')] = cs1 @ Call_Clear ''app'' # cs2
            \<and> Values_of (snd (run cs1 ?s0)) ''app'' \<noteq> []))"
    by (auto simp: Cons_eq_append_conv)
  from Written_iff_marked [OF ok, of "''app''"] Written_iff_marked [OF ok1, of "''app''"]
    ok ok1 c n
  show ?thesis by blast
qed

text \<open>
  Claim C6. After \<open>Delete(n, key)\<close> has returned, \<open>Get(n, key)\<close> returns nil, a read of
  the key in the session's values finds nothing, and \<open>Written(n)\<close> is true; nothing is
  assumed about the key beforehand.
\<close>

theorem Delete_then_Get:
  assumes "fst (Delete s n key) = Inr ()"
  shows "fst (Get (snd (Delete s n key)) n key) = Inr INil
       \<and> map_option (\<lambda>g. map_lookup (Values g) key) (fst (Session (snd (Delete s n key)) n))
           = Some None
       \<and> Written (snd (Delete s n key)) n"
proof (cases "Session s n")
  case (Pair p s1)
  then obtain g where p: "p = Some g"
    using assms by (cases p) (simp_all add: Delete_def)
  let ?g1 = "g\<lparr>Values := map_delete key (Values g)\<rparr>"
  let ?s3 = "(store_through s1 n ?g1)\<lparr>written := (written s1)(n \<mapsto> True)\<rparr>"
  have s: "Delete s n key = (Inr (), ?s3)"
    using Pair p by (simp add: Delete_def Let_def store_through_def)
  have "map_of (ss ?s3) n = Some (Some ?g1)"
    by (simp add: store_through_def AList.update_conv')
  then have se: "Session ?s3 n = (Some ?g1, ?s3)" by (rule Session_again)
  have l: "map_lookup (Values ?g1) key = None"
    by (simp add: map_lookup_def map_delete_def AList.delete_conv')
  then have "Get ?s3 n key = (Inr INil, ?s3)"
    using se by (simp add: Get_def index_def)
  moreover have "Written ?s3 n" by (simp add: Written_def)
  ultimately show ?thesis using s se l by simp
qed

text \<open>
  Claim C6, two instances: a key that the session holds and a key that it does not.
\<close>

theorem Delete_then_Get_witness:
  "fst (Delete (new_session returning_store () []) ''app'' (IStr ''user'')) = Inr ()
   \<and> fst (Get (snd (Delete (new_session returning_store () []) ''app'' (IStr ''user'')))
        ''app'' (IStr ''user'')) = Inr INil
   \<and> fst (Delete (new_session returning_store () []) ''app'' (IStr ''absent'')) = Inr ()
   \<and> Written (snd (Delete (new_session returning_store () []) ''app'' (IStr ''absent''))) ''app''"
proof -
  have h1: "fst (Delete (new_session returning_store () []) ''app'' (IStr ''user'')) = Inr ()"
    by (simp add: eval_defs)
  have h2: "fst (Delete (new_session returning_store () []) ''app'' (IStr ''absent'')) = Inr ()"
    by (simp add: eval_defs)
  from Delete_then_Get [OF h1] Delete_then_Get [OF h2] h1 h2 show ?thesis by simp
qed




text \<open>
  Claim C8, amended. When session \<open>n\<close> has no flash message pending under the default
  key, \<open>AddFlash(n, "x")\<close> followed by \<open>Flashes(n)\<close> returns the one message \<open>"x"\<close>, and
  the next \<open>Flashes(n)\<close> returns none.
\<close>

theorem AddFlash_then_Flashes:
  assumes "fst (Session s n) = Some g" and "Flash g ''_flash'' = []"
  shows "fst (AddFlash s n (IStr ''x'') []) = Inr ()
       \<and> fst (Flashes (snd (AddFlash s n (IStr ''x'') [])) n []) = Inr [IStr ''x'']
       \<and> fst (Flashes (snd (Flashes (snd (AddFlash s n (IStr ''x'') [])) n [])) n []) = Inr []"
proof -
  obtain s1 where se: "Session s n = (Some g, s1)"
    using assms(1) by (cases "Session s n") simp
  let ?g1 = "sessions_AddFlash g (IStr ''x'') []"
  let ?s2 = "(store_through s1 n ?g1)\<lparr>written := (written s1)(n \<mapsto> True)\<rparr>"
  have a: "AddFlash s n (IStr ''x'') [] = (Inr (), ?s2)"
    using se by (simp add: AddFlash_def Let_def store_through_def)
  let ?s2' = "?s2\<lparr>written := (written ?s2)(n \<mapsto> True)\<rparr>"
  have "map_of (ss ?s2') n = Some (Some ?g1)"
    by (simp add: store_through_def AList.update_conv')
  then have se2: "Session ?s2' n = (Some ?g1, ?s2')" by (rule Session_again)
  let ?g2 = "snd (sessions_Flashes ?g1 [])"
  let ?s3 = "store_through ?s2' n ?g2"
  have f1: "Flashes ?s2 n [] = (Inr [IStr ''x''], ?s3)"
    using se2 assms(2)
    by (simp add: Flashes_def Let_def sessions_Flashes_def sessions_AddFlash_def flashKey_def)
  let ?s3' = "?s3\<lparr>written := (written ?s3)(n \<mapsto> True)\<rparr>"
  have "map_of (ss ?s3') n = Some (Some ?g2)"
    by (simp add: store_through_def AList.update_conv')
  then have se3: "Session ?s3' n = (Some ?g2, ?s3')" by (rule Session_again)
  have f2: "fst (Flashes ?s3 n []) = Inr []"
    using se3
    by (simp add: Flashes_def Let_def sessions_Flashes_def sessions_AddFlash_def flashKey_def)
  show ?thesis using a f1 f2 by simp
qed

text \<open>
  Claim C8 as stated fails: on a session loaded with a pending flash message, the new
  one is appended and \<open>Flashes\<close> returns both.
\<close>

theorem AddFlash_then_Flashes_counterexample:
  "fst (Flashes (snd (AddFlash (new_session returning_store () []) ''app'' (IStr ''x'') []))
      ''app'' []) = Inr [IStr ''saved'', IStr ''x'']
   \<and> fst (Flashes (snd (AddFlash (new_session returning_store () []) ''app'' (IStr ''x'') []))
      ''app'' []) \<noteq> Inr [IStr ''x'']"
  by (simp add: eval_defs)

text \<open>
  Claim C8, amended, an instance: a fresh session.
\<close>

theorem AddFlash_then_Flashes_witness:
  "fst (Session (new_session cookie_store () []) ''app'') = Some fresh_session
   \<and> fst (Flashes (snd (AddFlash (new_session cookie_store () []) ''app'' (IStr ''x'') []))
        ''app'' []) = Inr [IStr ''x'']"
proof -
  have h: "fst (Session (new_session cookie_store () []) ''app'') = Some fresh_session"
    by (simp add: new_session_def Session_def cookie_store_def)
  have e: "Flash fresh_session ''_flash'' = []" by (simp add: fresh_session_def)
  from AddFlash_then_Flashes [OF h e] h show ?thesis by simp
qed

text \<open>
  Claim C9. After any call of \<open>Flashes(n)\<close>, \<open>Written(n)\<close> is true, also when the call
  panics; a call that finds the flash list empty returns the empty sequence.
\<close>

theorem Flashes_marks_always:
  "Written (snd (Flashes s n vars)) n
   \<and> (fst (Session s n) = Some g \<longrightarrow> Flash g (flashKey vars) = [] \<longrightarrow>
        fst (Flashes s n vars) = Inr [])"
proof -
  obtain p s1 where se: "Session s n = (p, s1)" by (cases "Session s n")
  let ?w = "(written s)(n \<mapsto> True)"
  have se': "Session (s\<lparr>written := ?w\<rparr>) n = (p, s1\<lparr>written := ?w\<rparr>)"
    using se by (simp add: Session_written_upd)
  have "Written (snd (Flashes s n vars)) n"
    using se' by (cases p) (simp_all add: Flashes_def Let_def Written_def
        store_through_def sessions_Flashes_def)
  moreover have "fst (Flashes s n vars) = Inr []"
    if "fst (Session s n) = Some g" "Flash g (flashKey vars) = []"
    using that se se' by (simp add: Flashes_def Let_def sessions_Flashes_def)
  ultimately show ?thesis by blast
qed

text \<open>
  Claim C9, two instances: a fresh session, where \<open>Flashes\<close> returns nothing, and a
  nil session, where it panics; the name is marked in both.
\<close>

theorem Flashes_marks_always_witness:
  "fst (Flashes (new_session cookie_store () []) ''app'' []) = Inr []
   \<and> Written (snd (Flashes (new_session cookie_store () []) ''app'' [])) ''app''
   \<and> fst (Flashes (new_session nil_store () []) ''app'' []) = Inl NilDeref
   \<and> Written (snd (Flashes (new_session nil_store () []) ''app'' [])) ''app''"
proof -
  have h: "fst (Session (new_session cookie_store () []) ''app'') = Some fresh_session"
    by (simp add: new_session_def Session_def cookie_store_def)
  have e: "Flash fresh_session (flashKey []) = []" by (simp add: fresh_session_def)
  have p: "fst (Flashes (new_session nil_store () []) ''app'' []) = Inl NilDeref"
    by (simp add: eval_defs)
  from Flashes_marks_always [of "new_session cookie_store () []" "''app''" "[]" fresh_session]
    Flashes_marks_always [of "new_session nil_store () []" "''app''" "[]" fresh_session]
    h e p
  show ?thesis by blast
qed

text \<open>
  Claim C10. \<open>Options(n, opts)\<close> leaves the \<open>written\<close> map as it was; when it returns, the
  session's options hold the five fields of \<open>opts\<close>; and a name on which the handlers
  call nothing but \<open>Options\<close> is not among the names the hook persists.
\<close>

theorem Options_not_written:
  "written (snd (Options s n opts)) = written s
   \<and> (fst (Options s n opts) = Inr () \<longrightarrow>
        map_option sOptions (fst (Session (snd (Options s n opts)) n)) =
          Some (Some \<lparr>sessions_Path = Path opts, sessions_Domain = Domain opts,
                       sessions_MaxAge = MaxAge opts, sessions_Secure = Secure opts,
                       sessions_HttpOnly = HttpOnly opts\<rparr>))
   \<and> ((\<forall>c\<in>set handler. call_name c = n \<longrightarrow> (\<exists>x. c = Call_Options n x)) \<longrightarrow>
        n \<notin> set (persisted (Sessions st r l handler)))"
proof -
  obtain p s1 where se: "Session s n = (p, s1)" by (cases "Session s n")
  have w: "written s1 = written s" using Session_written [of s n] se by simp
  have a: "written (snd (Options s n opts)) = written s"
    using se w by (cases p) (simp_all add: Options_def store_through_def)
  have b: "map_option sOptions (fst (Session (snd (Options s n opts)) n)) =
          Some (Some \<lparr>sessions_Path = Path opts, sessions_Domain = Domain opts,
                       sessions_MaxAge = MaxAge opts, sessions_Secure = Secure opts,
                       sessions_HttpOnly = HttpOnly opts\<rparr>)"
    if ok: "fst (Options s n opts) = Inr ()"
  proof -
    obtain g where p: "p = Some g"
      using ok se by (cases p) (simp_all add: Options_def)
    let ?g1 = "g\<lparr>sOptions := Some \<lparr>sessions_Path = Path opts, sessions_Domain = Domain opts,
                       sessions_MaxAge = MaxAge opts, sessions_Secure = Secure opts,
                       sessions_HttpOnly = HttpOnly opts\<rparr>\<rparr>"
    have o: "Options s n opts = (Inr (), store_through s1 n ?g1)"
      using se p by (simp add: Options_def)
    have "map_of (ss (store_through s1 n ?g1)) n = Some (Some ?g1)"
      by (simp add: store_through_def AList.update_conv')
    then have "Session (store_through s1 n ?g1) n = (Some ?g1, store_through s1 n ?g1)"
      by (rule Session_again)
    then show ?thesis using o by simp
  qed
  have c: "n \<notin> set (persisted (Sessions st r l handler))"
    if h: "\<forall>c\<in>set handler. call_name c = n \<longrightarrow> (\<exists>x. c = Call_Options n x)"
  proof
    assume "n \<in> set (persisted (Sessions st r l handler))"
    then have "Written (snd (run handler (new_session st r l))) n"
      using persisted_subset [of "snd (run handler (new_session st r l))"]
      by (auto simp: Sessions_def)
    then obtain c where c: "c \<in> set handler" "call_name c = n" "mutating c"
      using run_written_only_if [of handler "new_session st r l" n]
        Written_new_session [of st r l n]
      by blast
    then obtain x where "c = Call_Options n x" using h by blast
    then show False using c(3) by simp
  qed
  show ?thesis using a b c by blast
qed

text \<open>
  Claim C10, an instance: \<open>Options\<close> on one session and \<open>Set\<close> on another.
\<close>

theorem Options_not_written_witness:
  "fst (Options (new_session cookie_store () []) ''app''
          \<lparr>Path = ''/'', Domain = ''example.org'', MaxAge = 3600, Secure = True,
           HttpOnly = True\<rparr>) = Inr ()
   \<and> \<not> Written (snd (Options (new_session cookie_store () []) ''app''
          \<lparr>Path = ''/'', Domain = ''example.org'', MaxAge = 3600, Secure = True,
           HttpOnly = True\<rparr>)) ''app''
   \<and> ''app'' \<notin> set (persisted (Sessions cookie_store () []
          [Call_Options ''app'' \<lparr>Path = ''/'', Domain = ''example.org'', MaxAge = 3600,
             Secure = True, HttpOnly = True\<rparr>,
           Call_Set ''cart'' (IStr ''items'') (IInt 2)]))"
proof -
  let ?o = "\<lparr>Path = ''/'', Domain = ''example.org'', MaxAge = 3600, Secure = True,
           HttpOnly = True\<rparr>"
  let ?s = "new_session cookie_store () []"
  let ?h = "[Call_Options ''app'' ?o, Call_Set ''cart'' (IStr ''items'') (IInt 2)]"
  have r: "fst (Options ?s ''app'' ?o) = Inr ()"
    by (simp add: eval_defs)
  have h: "\<forall>c\<in>set ?h. call_name c = ''app'' \<longrightarrow> (\<exists>x. c = Call_Options ''app'' x)"
    by simp
  have w: "\<not> Written ?s ''app''" by (simp add: Written_def new_session_def)
  from Options_not_written [of ?s "''app''" ?o ?h cookie_store "()" "[]"] r h w
  show ?thesis by (simp add: Written_def)
qed

end
